theory Spec2Isabelle
  imports Complex_Main "HOL-Library.Char_ord" "HOL-Library.List_Lexorder"
    "HOL-Library.Product_Lexorder"
begin

section \<open>Texts and characters\<close>

text \<open>
  A Python \<open>str\<close> is modelled as a HOL \<open>string\<close> holding the UTF-8 encoding of the
  text: an ASCII character is one \<open>char\<close>, any other code point is a run of
  \<open>char\<close>s above \<open>0x7F\<close>. The Unicode-aware operations of Python (\<open>str.lower\<close>, and
  the classes \<open>\d\<close>, \<open>\s\<close>, \<open>\w\<close> of \<open>re\<close>) are given on their ASCII range, where the
  model is exact; a \<open>char\<close> above \<open>0x7F\<close> is in none of these classes and is left alone
  by \<open>lower\<close>.
\<close>

definition in_range :: "char \<Rightarrow> char \<Rightarrow> char \<Rightarrow> bool" where
  "in_range lo hi c = (lo \<le> c \<and> c \<le> hi)"

definition is_lower :: "char \<Rightarrow> bool" where
  "is_lower c = in_range CHR ''a'' CHR ''z'' c"

definition is_upper :: "char \<Rightarrow> bool" where
  "is_upper c = in_range CHR ''A'' CHR ''Z'' c"

definition is_alpha :: "char \<Rightarrow> bool" where
  "is_alpha c = (is_upper c \<or> is_lower c)"

text \<open>\<open>\d\<close>\<close>

definition is_digit :: "char \<Rightarrow> bool" where
  "is_digit c = in_range CHR ''0'' CHR ''9'' c"

text \<open>\<open>\s\<close>, which is also what \<open>str.strip\<close> and \<open>str.split\<close> take for whitespace:
  tab, line feed, vertical tab, form feed, carriage return, the four separators
  \<open>0x1C\<close> to \<open>0x1F\<close>, and the space.\<close>

definition is_space :: "char \<Rightarrow> bool" where
  "is_space c = (in_range (CHR 0x09) (CHR 0x0D) c \<or> in_range (CHR 0x1C) (CHR 0x1F) c
                 \<or> c = CHR '' '')"

text \<open>\<open>\w\<close>\<close>

definition is_word :: "char \<Rightarrow> bool" where
  "is_word c = (is_alpha c \<or> is_digit c \<or> c = CHR ''_'')"

definition lower_char :: "char \<Rightarrow> char" where
  "lower_char c = (if is_upper c then char_of (of_char c + (32::nat)) else c)"

text \<open>\<open>s.lower()\<close>\<close>

definition lower :: "string \<Rightarrow> string" where
  "lower s = map lower_char s"

text \<open>\<open>s.strip()\<close>\<close>

definition strip :: "string \<Rightarrow> string" where
  "strip s = rev (dropWhile is_space (rev (dropWhile is_space s)))"

text \<open>\<open>sep.join(xs)\<close>\<close>

fun join :: "string \<Rightarrow> string list \<Rightarrow> string" where
  "join sep [] = []"
| "join sep [x] = x"
| "join sep (x # y # ys) = x @ sep @ join sep (y # ys)"

fun starts_with :: "string \<Rightarrow> string \<Rightarrow> bool" where
  "starts_with [] t = True"
| "starts_with (p # ps) [] = False"
| "starts_with (p # ps) (c # cs) = (p = c \<and> starts_with ps cs)"

text \<open>\<open>p in t\<close> on two strings: \<open>p\<close> occurs in \<open>t\<close> as a substring.\<close>

fun is_sub :: "string \<Rightarrow> string \<Rightarrow> bool" where
  "is_sub p [] = (p = [])"
| "is_sub p (c # cs) = (starts_with p (c # cs) \<or> is_sub p cs)"

text \<open>\<open>xs[i:]\<close> for a Python integer \<open>i\<close>: a negative \<open>i\<close> counts from the end, and
  both ends are clipped to the list.\<close>

definition slice_from :: "int \<Rightarrow> 'a list \<Rightarrow> 'a list" where
  "slice_from i xs = (if i < 0 then drop (nat (int (length xs) + i)) xs else drop (nat i) xs)"

text \<open>\<open>xs[:n]\<close> for \<open>n \<ge> 0\<close> is \<open>take n xs\<close>.\<close>

section \<open>Regular expressions of \<open>re\<close>\<close>

text \<open>
  The patterns of the program use character classes, concatenation, alternation and the
  greedy repetitions \<open>?\<close>, \<open>+\<close>, \<open>{n,}\<close>. \<open>rests r s\<close> lists what is left of \<open>s\<close> after each
  way of matching \<open>r\<close> at the start of \<open>s\<close>, in the order in which the backtracking
  matcher of \<open>re\<close> tries them: the left alternative first, one more repetition first.
  The length tests only make the recursion well-founded (a rest is never longer than
  the string, see \<open>rests_suffix\<close>); an iteration of a star must consume something.
\<close>

datatype rexp = Atom "char \<Rightarrow> bool" | Eps | Seq rexp rexp | Alt rexp rexp | Star rexp

function rests :: "rexp \<Rightarrow> string \<Rightarrow> string list" where
  "rests (Atom p) s = (case s of [] \<Rightarrow> [] | c # cs \<Rightarrow> if p c then [cs] else [])"
| "rests Eps s = [s]"
| "rests (Seq a b) s =
     concat (map (\<lambda>t. if length t \<le> length s then rests b t else []) (rests a s))"
| "rests (Alt a b) s = rests a s @ rests b s"
| "rests (Star a) s =
     concat (map (\<lambda>t. if length t < length s then rests (Star a) t else []) (rests a s)) @ [s]"
  by pat_completeness auto
termination
  by (relation "measures [\<lambda>(r, s). length s, \<lambda>(r, s). size r]") auto

text \<open>A literal string, \<open>r?\<close>, \<open>r+\<close> and \<open>r{n,}\<close>.\<close>

fun Lit :: "string \<Rightarrow> rexp" where
  "Lit [] = Eps"
| "Lit (c # cs) = Seq (Atom (\<lambda>x. x = c)) (Lit cs)"

definition Opt :: "rexp \<Rightarrow> rexp" where
  "Opt r = Alt r Eps"

definition Plus :: "rexp \<Rightarrow> rexp" where
  "Plus r = Seq r (Star r)"

fun AtLeast :: "nat \<Rightarrow> rexp \<Rightarrow> rexp" where
  "AtLeast 0 r = Star r"
| "AtLeast (Suc n) r = Seq r (AtLeast n r)"

text \<open>\<open>bool(re.search(r, s))\<close>: \<open>r\<close> matches at some position of \<open>s\<close>.\<close>

fun re_search :: "rexp \<Rightarrow> string \<Rightarrow> bool" where
  "re_search r [] = (rests r [] \<noteq> [])"
| "re_search r (c # cs) = (rests r (c # cs) \<noteq> [] \<or> re_search r cs)"

text \<open>
  The first non-empty match of \<open>r\<close> at the start of \<open>s\<close>, as what it leaves. Every
  pattern that the program gives to \<open>re.sub\<close> and \<open>re.findall\<close> matches non-empty strings
  only, so these two look for non-empty matches.
\<close>

definition first_rest :: "rexp \<Rightarrow> string \<Rightarrow> string option" where
  "first_rest r s = find (\<lambda>t. length t < length s) (rests r s)"

text \<open>\<open>re.sub(r, repl, s)\<close> for a replacement without group references: the leftmost
  matches, none overlapping another, are replaced from left to right.\<close>

function re_sub :: "rexp \<Rightarrow> string \<Rightarrow> string \<Rightarrow> string" where
  "re_sub r repl [] = []"
| "re_sub r repl (c # cs) =
     (case first_rest r (c # cs) of
        None \<Rightarrow> c # re_sub r repl cs
      | Some t \<Rightarrow> if length t < length (c # cs) then repl @ re_sub r repl t
                  else c # re_sub r repl cs)"
  by pat_completeness auto
termination
  by (relation "measure (\<lambda>(r, repl, s). length s)") auto

text \<open>\<open>re.findall(r, s)\<close> for a pattern without groups: the matched substrings.\<close>

function re_findall :: "rexp \<Rightarrow> string \<Rightarrow> string list" where
  "re_findall r [] = []"
| "re_findall r (c # cs) =
     (case first_rest r (c # cs) of
        None \<Rightarrow> re_findall r cs
      | Some t \<Rightarrow> if length t < length (c # cs)
                  then take (length (c # cs) - length t) (c # cs) # re_findall r t
                  else re_findall r cs)"
  by pat_completeness auto
termination
  by (relation "measure (\<lambda>(r, s). length s)") auto

text \<open>The strings that a pattern matches as a whole.\<close>

fun lang :: "rexp \<Rightarrow> string set" where
  "lang (Atom p) = {[c] | c. p c}"
| "lang Eps = {[]}"
| "lang (Seq a b) = {u @ v | u v. u \<in> lang a \<and> v \<in> lang b}"
| "lang (Alt a b) = lang a \<union> lang b"
| "lang (Star a) = {concat ws | ws. set ws \<subseteq> lang a}"


section \<open>The normalizer (utils.py)\<close>

text \<open>\<open>[^a-z0-9+#.\-()\s]\<close>\<close>

definition NOT_ALLOWED_RE :: rexp where
  "NOT_ALLOWED_RE =
     Atom (\<lambda>c. \<not> (is_lower c \<or> is_digit c \<or> c \<in> set ''+#.-()'' \<or> is_space c))"

text \<open>\<open>\s+\<close>\<close>

definition SPACES_RE :: rexp where
  "SPACES_RE = Plus (Atom is_space)"

definition clean_text :: "string \<Rightarrow> string" where
  "clean_text t =
     (let t = lower t;
          t = re_sub NOT_ALLOWED_RE '' '' t;
          t = strip (re_sub SPACES_RE '' '' t)
      in t)"

text \<open>The characters that \<open>clean_text\<close> keeps, and the shape of its results: kept
  characters and single spaces, with no whitespace at either end.\<close>

definition allowed :: "char \<Rightarrow> bool" where
  "allowed c = (is_lower c \<or> is_digit c \<or> c \<in> set ''+#.-()'')"

definition normal :: "string \<Rightarrow> bool" where
  "normal x = ((\<forall>c \<in> set x. allowed c \<or> c = CHR '' '') \<and> \<not> is_sub ''  '' x
     \<and> (x \<noteq> [] \<longrightarrow> \<not> is_space (hd x) \<and> \<not> is_space (last x)))"

section \<open>The structural checks (utils.py)\<close>

definition SECTION_HINTS :: "string list" where
  "SECTION_HINTS =
     [''summary'', ''profile'', ''skills'', ''technical skills'', ''experience'',
      ''work experience'', ''projects'', ''education'', ''certifications'', ''awards'']"

text \<open>\<open>[A-Za-z0-9._%+-]+@[A-Za-z0-9.-]+\.[A-Za-z]{2,}\<close>\<close>

definition email_local_char :: "char \<Rightarrow> bool" where
  "email_local_char c = (is_alpha c \<or> is_digit c \<or> c \<in> set ''._%+-'')"

definition email_domain_char :: "char \<Rightarrow> bool" where
  "email_domain_char c = (is_alpha c \<or> is_digit c \<or> c \<in> set ''.-'')"

definition EMAIL_RE :: rexp where
  "EMAIL_RE =
     Seq (Plus (Atom email_local_char))
      (Seq (Atom (\<lambda>x. x = CHR ''@''))
        (Seq (Plus (Atom email_domain_char))
          (Seq (Atom (\<lambda>x. x = CHR ''.'')) (AtLeast 2 (Atom is_alpha)))))"

text \<open>\<open>(\+?\d[\d\-\s]{7,}\d)\<close>\<close>

definition phone_mid_char :: "char \<Rightarrow> bool" where
  "phone_mid_char c = (is_digit c \<or> c = CHR ''-'' \<or> is_space c)"

definition PHONE_RE :: rexp where
  "PHONE_RE =
     Seq (Opt (Atom (\<lambda>x. x = CHR ''+'')))
      (Seq (Atom is_digit) (Seq (AtLeast 7 (Atom phone_mid_char)) (Atom is_digit)))"

definition has_contact_info :: "string \<Rightarrow> bool \<times> bool" where
  "has_contact_info text =
     (let email = re_search EMAIL_RE text;
          phone = re_search PHONE_RE text
      in (email, phone))"

definition has_sections :: "string \<Rightarrow> string list" where
  "has_sections text =
     (let t = lower text;
          hits = filter (\<lambda>s. is_sub s t) SECTION_HINTS
      in hits)"

text \<open>The bullet glyph U+2022, in UTF-8.\<close>

definition BULLET :: string where
  "BULLET = [CHR 0xE2, CHR 0x80, CHR 0xA2]"

text \<open>The pattern of \<open>bullet_usage\<close>: the bullet glyph, or \<open>- \<close>, or \<open>* \<close>.\<close>

definition BULLET_RE :: rexp where
  "BULLET_RE = Alt (Lit BULLET) (Alt (Lit ''- '') (Lit ''* ''))"

definition bullet_usage :: "string \<Rightarrow> bool" where
  "bullet_usage text =
     (let bullets = re_findall BULLET_RE text
      in length bullets \<ge> 5)"

text \<open>\<open>(20\d{2}|19\d{2})\<close>\<close>

definition YEAR_RE :: rexp where
  "YEAR_RE =
     Alt (Seq (Lit ''20'') (Seq (Atom is_digit) (Atom is_digit)))
         (Seq (Lit ''19'') (Seq (Atom is_digit) (Atom is_digit)))"

definition has_dates :: "string \<Rightarrow> bool" where
  "has_dates text = re_search YEAR_RE text"

text \<open>One entry of the report: \<open>{"ok": ..., "msg": ...}\<close>.\<close>

record check =
  ok :: bool
  msg :: string

text \<open>The warning sign U+26A0 with the variation selector U+FE0F, and the en dash
  U+2013, in UTF-8.\<close>

definition WARNING_SIGN :: string where
  "WARNING_SIGN = [CHR 0xE2, CHR 0x9A, CHR 0xA0, CHR 0xEF, CHR 0xB8, CHR 0x8F]"

definition EN_DASH :: string where
  "EN_DASH = [CHR 0xE2, CHR 0x80, CHR 0x93]"

text \<open>
  The report is a Python dict, which keeps its keys in the order of insertion and is
  read back in that order by \<open>items()\<close>: an association list.
\<close>

definition ats_checks :: "string \<Rightarrow> string \<Rightarrow> (string \<times> check) list" where
  "ats_checks resume_text ext =
     (let (email_ok, phone_ok) = has_contact_info resume_text;
          sections = has_sections resume_text;
          bullets_ok = bullet_usage resume_text;
          dates_ok = has_dates resume_text;
          tables_flag = WARNING_SIGN @ '' Use tables sparingly; some ATS drops table content.'';
          file_ok = (ext = ''pdf'' \<or> ext = ''docx'')
      in [(''File Type'',
             \<lparr>ok = file_ok, msg = ''PDF/DOCX are ATS-safe. Avoid images/scans.''\<rparr>),
          (''Contact Info'',
             \<lparr>ok = email_ok \<and> phone_ok,
              msg = ''Include a professional email and reachable phone number.''\<rparr>),
          (''Clear Sections'',
             \<lparr>ok = length sections \<ge> 3,
              msg = ''Detected sections: ''
                    @ (if join '', '' sections = [] then ''none'' else join '', '' sections)
                    @ ''.''\<rparr>),
          (''Bullet Structure'',
             \<lparr>ok = bullets_ok,
              msg = ''Use concise bullet points with action verbs and impact.''\<rparr>),
          (''Dates Present'',
             \<lparr>ok = dates_ok,
              msg = ''Include years for roles/projects (YYYY'' @ EN_DASH @ ''YYYY).''\<rparr>),
          (''Tables/Graphics'', \<lparr>ok = True, msg = tables_flag\<rparr>)])"





section \<open>The suggestions (utils.py)\<close>

definition LOW_SCORE :: string where
  "LOW_SCORE =
     ''Customize your summary and top bullets with JD keywords to raise the match score.''"

definition MID_SCORE :: string where
  "MID_SCORE =
     ''Strengthen skills and achievements using exact phrasing from the JD where truthful.''"

definition missing_msg :: "string list \<Rightarrow> string" where
  "missing_msg ks =
     ''Incorporate missing role-specific keywords where accurate: '' @ join '', '' ks @ ''.''"

definition ats_msg :: "string \<times> check \<Rightarrow> string" where
  "ats_msg kv = ''ATS: '' @ msg (snd kv) @ '' (Improve: '' @ fst kv @ '').''"

definition GENERIC :: "string list" where
  "GENERIC =
     [''Start bullets with strong action verbs (Built, Optimized, Automated) and quantify impact.'',
      ''Keep formatting simple: one column, standard fonts, no headers/footers.'',
      ''Save as text-based PDF (not scanned).'']"

text \<open>The loop over \<open>ats_report.items()\<close>, appending to the list built so far.\<close>

fun ats_loop :: "(string \<times> check) list \<Rightarrow> string list \<Rightarrow> string list" where
  "ats_loop [] suggestions = suggestions"
| "ats_loop (kv # rest) suggestions =
     (if \<not> ok (snd kv) then ats_loop rest (suggestions @ [ats_msg kv])
      else ats_loop rest suggestions)"

text \<open>
  The score is a float that is only compared with the two literals; the comparison of
  floats is exact, so the score is taken as a real number.
\<close>

definition suggest_improvements ::
  "real \<Rightarrow> string list \<Rightarrow> string list \<Rightarrow> (string \<times> check) list \<Rightarrow> string list" where
  "suggest_improvements match_score present missing ats_report =
     (let suggestions = [];
          suggestions = (if match_score < 0.45 then suggestions @ [LOW_SCORE]
                         else if match_score < 0.65 then suggestions @ [MID_SCORE]
                         else suggestions);
          suggestions = (if missing \<noteq> [] then suggestions @ [missing_msg (take 12 missing)]
                         else suggestions);
          suggestions = ats_loop ats_report suggestions;
          suggestions = suggestions @ GENERIC
      in suggestions)"

section \<open>Keyword coverage (app.py)\<close>

definition present_keywords :: "string list \<Rightarrow> string \<Rightarrow> string list" where
  "present_keywords jd_keywords resume_clean =
     filter (\<lambda>k. is_sub (lower k) resume_clean) jd_keywords"

definition missing_keywords :: "string list \<Rightarrow> string \<Rightarrow> string list" where
  "missing_keywords jd_keywords resume_clean =
     filter (\<lambda>k. \<not> is_sub (lower k) resume_clean) jd_keywords"

section \<open>Substrings\<close>

lemma starts_with_iff: "starts_with p t \<longleftrightarrow> (\<exists>post. t = p @ post)"
  by (induction p t rule: starts_with.induct) auto

lemma is_sub_iff: "is_sub p t \<longleftrightarrow> (\<exists>pre post. t = pre @ p @ post)"
proof (induction t)
  case Nil
  then show ?case by auto
next
  case (Cons c cs)
  show ?case
  proof
    assume "is_sub p (c # cs)"
    then consider "starts_with p (c # cs)" | "is_sub p cs" by auto
    then show "\<exists>pre post. c # cs = pre @ p @ post"
    proof cases
      case 1
      then obtain post where "c # cs = p @ post" by (auto simp: starts_with_iff)
      then have "c # cs = [] @ p @ post" by simp
      then show ?thesis by blast
    next
      case 2
      then obtain pre post where "cs = pre @ p @ post" using Cons.IH by auto
      then have "c # cs = (c # pre) @ p @ post" by simp
      then show ?thesis by blast
    qed
  next
    assume "\<exists>pre post. c # cs = pre @ p @ post"
    then obtain pre post where e: "c # cs = pre @ p @ post" by auto
    show "is_sub p (c # cs)"
    proof (cases pre)
      case Nil
      then have "starts_with p (c # cs)" using e starts_with_iff by auto
      then show ?thesis by simp
    next
      case (Cons a pre')
      then have "cs = pre' @ p @ post" using e by simp
      then show ?thesis using Cons.IH by auto
    qed
  qed
qed

lemma is_sub_suffix: "is_sub (p @ q) t \<Longrightarrow> is_sub q t"
  by (metis append.assoc is_sub_iff)

section \<open>The suggestion list\<close>

lemma ats_loop_filter:
  "ats_loop r acc = acc @ map ats_msg (filter (\<lambda>kv. \<not> ok (snd kv)) r)"
  by (induction r arbitrary: acc) auto

text \<open>
  C4. For every score, keyword lists and report, \<open>suggest_improvements\<close> returns, in this
  order: the low-score suggestion if the score is below 0.45, else the weaker one if it
  is below 0.65, else neither; one suggestion naming the first 12 missing keywords if
  there is a missing keyword; one suggestion for each entry of the report that is not
  ok, in the order of the report; and the three generic suggestions.
\<close>

theorem suggest_improvements_order:
  "suggest_improvements score present missing report =
     (if score < 0.45 then [LOW_SCORE] else if score < 0.65 then [MID_SCORE] else [])
     @ (if missing = [] then [] else [missing_msg (take 12 missing)])
     @ map ats_msg (filter (\<lambda>kv. \<not> ok (snd kv)) report)
     @ GENERIC"
  by (simp add: suggest_improvements_def ats_loop_filter)

theorem suggest_improvements_order_witness:
  "suggest_improvements 0.30 [] [''a'', ''b'']
      [(''Dates Present'', \<lparr>ok = False, msg = ''m''\<rparr>), (''File Type'', \<lparr>ok = True, msg = ''n''\<rparr>)]
   = [LOW_SCORE, missing_msg [''a'', ''b''],
      ats_msg (''Dates Present'', \<lparr>ok = False, msg = ''m''\<rparr>)] @ GENERIC
   \<and> suggest_improvements 0.80 [] [] [(''File Type'', \<lparr>ok = True, msg = ''n''\<rparr>)] = GENERIC
   \<and> length GENERIC = 3"
  using suggest_improvements_order [of "0.30" "[]" "[''a'', ''b'']"
      "[(''Dates Present'', \<lparr>ok = False, msg = ''m''\<rparr>), (''File Type'', \<lparr>ok = True, msg = ''n''\<rparr>)]"]
    suggest_improvements_order [of "0.80" "[]" "[]" "[(''File Type'', \<lparr>ok = True, msg = ''n''\<rparr>)]"]
  by (simp add: GENERIC_def)

section \<open>Keyword coverage\<close>

text \<open>
  C6. For every keyword list and candidate text, the present and the missing keywords
  partition the keyword list: together they are all the keywords, and no keyword is in
  both.
\<close>

theorem coverage_partition:
  "set (present_keywords kws resume_clean) \<union> set (missing_keywords kws resume_clean) = set kws
   \<and> set (present_keywords kws resume_clean) \<inter> set (missing_keywords kws resume_clean) = {}"
  by (auto simp: present_keywords_def missing_keywords_def)

section \<open>The report of the structural checks\<close>

text \<open>
  C9. For every text and file extension, the report has exactly the six check names,
  each once, and its Tables/Graphics entry is ok with the fixed warning as message.
\<close>

theorem ats_checks_six:
  "map fst (ats_checks resume_text ext) =
     [''File Type'', ''Contact Info'', ''Clear Sections'', ''Bullet Structure'',
      ''Dates Present'', ''Tables/Graphics'']
   \<and> distinct (map fst (ats_checks resume_text ext))
   \<and> map_of (ats_checks resume_text ext) ''Tables/Graphics'' =
       Some \<lparr>ok = True,
             msg = WARNING_SIGN @ '' Use tables sparingly; some ATS drops table content.''\<rparr>"
  by (simp add: ats_checks_def Let_def case_prod_beta)

lemma hint_hit:
  "h \<in> set SECTION_HINTS \<Longrightarrow> is_sub h (lower text) \<Longrightarrow> h \<in> set (has_sections text)"
  by (simp add: has_sections_def)

lemma clear_sections_entry:
  "map_of (ats_checks text ext) ''Clear Sections'' =
     Some \<lparr>ok = length (has_sections text) \<ge> 3,
           msg = ''Detected sections: ''
                 @ (if join '', '' (has_sections text) = [] then ''none''
                    else join '', '' (has_sections text))
                 @ ''.''\<rparr>"
  by (simp add: ats_checks_def Let_def case_prod_beta)

text \<open>
  C10. A text whose lower-case form contains \<open>work experience\<close> hits the two hints
  \<open>experience\<close> and \<open>work experience\<close>; one that contains \<open>technical skills\<close> hits
  \<open>skills\<close> and \<open>technical skills\<close>. A text with these two headings therefore has at least
  four hits, and its Clear Sections entry, which asks for three, is ok.
\<close>

theorem overlapping_hints:
  "(is_sub ''work experience'' (lower text) \<longrightarrow>
      ''experience'' \<in> set (has_sections text) \<and> ''work experience'' \<in> set (has_sections text))
   \<and> (is_sub ''technical skills'' (lower text) \<longrightarrow>
      ''skills'' \<in> set (has_sections text) \<and> ''technical skills'' \<in> set (has_sections text))
   \<and> (is_sub ''work experience'' (lower text) \<and> is_sub ''technical skills'' (lower text) \<longrightarrow>
      length (has_sections text) \<ge> 4
      \<and> (\<exists>m. map_of (ats_checks text ext) ''Clear Sections'' = Some \<lparr>ok = True, msg = m\<rparr>))"
proof -
  have we: "''experience'' \<in> set (has_sections text) \<and> ''work experience'' \<in> set (has_sections text)"
    if h: "is_sub ''work experience'' (lower text)"
  proof -
    have "is_sub ''experience'' (lower text)"
      using is_sub_suffix [of "''work ''" "''experience''" "lower text"] h by simp
    then show ?thesis using h by (simp add: hint_hit SECTION_HINTS_def)
  qed
  have ts: "''skills'' \<in> set (has_sections text) \<and> ''technical skills'' \<in> set (has_sections text)"
    if h: "is_sub ''technical skills'' (lower text)"
  proof -
    have "is_sub ''skills'' (lower text)"
      using is_sub_suffix [of "''technical ''" "''skills''" "lower text"] h by simp
    then show ?thesis using h by (simp add: hint_hit SECTION_HINTS_def)
  qed
  have both: "length (has_sections text) \<ge> 4"
    if h1: "is_sub ''work experience'' (lower text)" and h2: "is_sub ''technical skills'' (lower text)"
  proof -
    let ?H = "{''skills'', ''technical skills'', ''experience'', ''work experience''}"
    have "?H \<subseteq> set (has_sections text)" using we [OF h1] ts [OF h2] by simp
    then have "card ?H \<le> card (set (has_sections text))" by (intro card_mono) auto
    moreover have "card ?H = 4" by simp
    moreover have "card (set (has_sections text)) \<le> length (has_sections text)"
      by (rule card_length)
    ultimately show ?thesis by linarith
  qed
  have both3: "3 \<le> length (has_sections text)"
    if "is_sub ''work experience'' (lower text)" and "is_sub ''technical skills'' (lower text)"
    using both [OF that] by linarith
  show ?thesis using we ts both both3 by (simp add: clear_sections_entry)
qed

theorem overlapping_hints_witness:
  "is_sub ''work experience'' (lower ''Work Experience / Technical Skills'')
   \<and> is_sub ''technical skills'' (lower ''Work Experience / Technical Skills'')
   \<and> has_sections ''Work Experience / Technical Skills'' =
        [''skills'', ''technical skills'', ''experience'', ''work experience'']
   \<and> (\<exists>m. map_of (ats_checks ''Work Experience / Technical Skills'' ''txt'') ''Clear Sections'' =
          Some \<lparr>ok = True, msg = m\<rparr>)"
proof -
  have a: "is_sub ''work experience'' (lower ''Work Experience / Technical Skills'')"
    by code_simp
  have b: "is_sub ''technical skills'' (lower ''Work Experience / Technical Skills'')"
    by code_simp
  have c: "has_sections ''Work Experience / Technical Skills'' =
        [''skills'', ''technical skills'', ''experience'', ''work experience'']"
    by code_simp
  show ?thesis
    using a b c overlapping_hints [of "''Work Experience / Technical Skills''" "''txt''"]
    by blast
qed

section \<open>The normalizer is idempotent\<close>

lemma allowed_not_upper: "allowed c \<Longrightarrow> \<not> is_upper c"
  by (auto simp: allowed_def is_lower_def is_upper_def is_digit_def in_range_def less_eq_char_def)

lemma allowed_not_space: "allowed c \<Longrightarrow> \<not> is_space c"
  by (auto simp: allowed_def is_lower_def is_space_def is_digit_def in_range_def less_eq_char_def)

lemma space_is_space: "is_space CHR '' ''"
  by (simp add: is_space_def)

lemma space_not_upper: "\<not> is_upper CHR '' ''"
  by (simp add: is_upper_def in_range_def less_eq_char_def)

lemma first_rest_Atom: "first_rest (Atom p) (c # cs) = (if p c then Some cs else None)"
  by (simp add: first_rest_def)

lemma re_sub_Atom: "re_sub (Atom p) repl s = concat (map (\<lambda>c. if p c then repl else [c]) s)"
  by (induction s) (simp_all add: first_rest_Atom)

declare re_sub.simps [simp del]

lemma rests_Star_Atom:
  "rests (Star (Atom p)) (c # cs) = (if p c then rests (Star (Atom p)) cs @ [c # cs] else [c # cs])"
  by simp

lemma rests_Star_Atom_hd:
  "rests (Star (Atom p)) s \<noteq> [] \<and> hd (rests (Star (Atom p)) s) = dropWhile p s"
  by (induction s) (simp_all del: rests.simps add: rests_Star_Atom, simp)


lemma length_dropWhile_le': "length (dropWhile p s) \<le> length s"
  by (induction s) auto

lemma first_rest_Plus_Atom:
  "first_rest (Plus (Atom p)) (c # cs) = (if p c then Some (dropWhile p cs) else None)"
proof (cases "p c")
  case False
  then show ?thesis by (simp add: first_rest_def Plus_def)
next
  case True
  let ?rs = "rests (Star (Atom p)) cs"
  have ne: "?rs \<noteq> []" and h: "hd ?rs = dropWhile p cs"
    using rests_Star_Atom_hd [of p cs] by auto
  have r: "rests (Plus (Atom p)) (c # cs) = ?rs"
    using True by (simp del: rests.simps(5) add: Plus_def)
  obtain t ts where ts: "?rs = t # ts" using ne by (cases ?rs) auto
  then have "t = dropWhile p cs" using h by simp
  then have "length t < length (c # cs)"
    using length_dropWhile_le' [of p cs] by simp
  then have "find (\<lambda>t. length t < length (c # cs)) ?rs = Some t"
    using ts by simp
  then show ?thesis using True r \<open>t = dropWhile p cs\<close> by (simp add: first_rest_def)
qed

lemma re_sub_Plus_Atom:
  "re_sub (Plus (Atom p)) repl (c # cs) =
     (if p c then repl @ re_sub (Plus (Atom p)) repl (dropWhile p cs)
      else c # re_sub (Plus (Atom p)) repl cs)"
  using length_dropWhile_le' [of p cs] by (simp add: re_sub.simps first_rest_Plus_Atom)

lemma re_sub_Nil: "re_sub r repl [] = []"
  by (simp add: re_sub.simps)


lemma lower_fix: "\<forall>c \<in> set x. \<not> is_upper c \<Longrightarrow> lower x = x"
  by (induction x) (auto simp: lower_def lower_char_def)

lemma re_sub_Atom_fix: "\<forall>c \<in> set x. \<not> p c \<Longrightarrow> re_sub (Atom p) repl x = x"
proof (induction x)
  case Nil
  then show ?case by (simp add: re_sub_Nil)
next
  case (Cons c cs)
  then have "\<not> p c" and "re_sub (Atom p) repl cs = cs" by simp_all
  then show ?case by (simp add: re_sub.simps(2) first_rest_Atom)
qed


lemma sub1_fix:
  assumes "\<forall>c \<in> set x. allowed c \<or> c = CHR '' ''"
  shows "re_sub NOT_ALLOWED_RE '' '' x = x"
proof -
  have "\<forall>c \<in> set x. \<not> \<not> (is_lower c \<or> is_digit c \<or> c \<in> set ''+#.-()'' \<or> is_space c)"
  proof
    fix c assume "c \<in> set x"
    then have "allowed c \<or> c = CHR '' ''" using assms by blast
    then show "\<not> \<not> (is_lower c \<or> is_digit c \<or> c \<in> set ''+#.-()'' \<or> is_space c)"
      using space_is_space unfolding allowed_def by blast
  qed
  then show ?thesis unfolding NOT_ALLOWED_RE_def by (rule re_sub_Atom_fix)
qed

lemma no_double_space_tl: "\<not> is_sub ''  '' (c # cs) \<Longrightarrow> \<not> is_sub ''  '' cs"
  by simp

lemma no_double_space_hd: "\<not> is_sub ''  '' (CHR '' '' # d # ds) \<Longrightarrow> d \<noteq> CHR '' ''"
  by auto

lemma sub2_fix:
  "\<forall>c \<in> set x. allowed c \<or> c = CHR '' '' \<Longrightarrow> \<not> is_sub ''  '' x
   \<Longrightarrow> re_sub SPACES_RE '' '' x = x"
proof (induction x)
  case Nil
  then show ?case by (simp add: re_sub_Nil)
next
  case (Cons c cs)
  have "\<not> is_sub ''  '' cs" using Cons.prems(2) by (rule no_double_space_tl)
  then have ih: "re_sub (Plus (Atom is_space)) '' '' cs = cs"
    using Cons.IH Cons.prems(1) by (simp add: SPACES_RE_def)
  show ?case
  proof (cases "is_space c")
    case False
    then show ?thesis using ih by (simp add: SPACES_RE_def re_sub_Plus_Atom)
  next
    case True
    then have c: "c = CHR '' ''" using Cons.prems(1) allowed_not_space by auto
    have dw: "dropWhile is_space cs = cs"
    proof (cases cs)
      case Nil
      then show ?thesis by simp
    next
      case (Cons d ds)
      have "\<not> is_sub ''  '' (CHR '' '' # d # ds)" using \<open>\<not> is_sub ''  '' (c # cs)\<close> c Cons by simp
      then have "d \<noteq> CHR '' ''" by (rule no_double_space_hd)
      moreover have "allowed d \<or> d = CHR '' ''" using \<open>\<forall>c \<in> set (c # cs). allowed c \<or> c = CHR '' ''\<close> Cons by simp
      ultimately have "\<not> is_space d" using allowed_not_space by blast
      then show ?thesis using Cons by simp
    qed
    have "re_sub (Plus (Atom is_space)) '' '' (c # cs) = '' '' @ re_sub (Plus (Atom is_space)) '' '' (dropWhile is_space cs)"
      using True by (simp add: re_sub_Plus_Atom)
    also have "\<dots> = c # cs" using dw ih c by simp
    finally show ?thesis by (simp add: SPACES_RE_def)
  qed
qed

lemma strip_fix: "x \<noteq> [] \<longrightarrow> \<not> is_space (hd x) \<and> \<not> is_space (last x) \<Longrightarrow> strip x = x"
proof (cases x)
  case Nil
  then show ?thesis by (simp add: strip_def)
next
  case (Cons c cs)
  assume "x \<noteq> [] \<longrightarrow> \<not> is_space (hd x) \<and> \<not> is_space (last x)"
  then have h: "\<not> is_space (hd x)" and l: "\<not> is_space (last x)" using Cons by auto
  have 1: "dropWhile is_space x = x" using h Cons by simp
  have ne: "rev x \<noteq> []" using Cons by simp
  have "hd (rev x) = last x" using Cons by (simp add: hd_rev)
  then have "\<not> is_space (hd (rev x))" using l by simp
  then have "dropWhile is_space (rev x) = rev x" using ne by (cases "rev x") simp_all
  then show ?thesis using 1 by (simp add: strip_def)
qed

lemma clean_text_fix:
  assumes n: "normal x"
  shows "clean_text x = x"
proof -
  have ch: "\<forall>c \<in> set x. allowed c \<or> c = CHR '' ''"
    and ds: "\<not> is_sub ''  '' x"
    and ends: "x \<noteq> [] \<longrightarrow> \<not> is_space (hd x) \<and> \<not> is_space (last x)"
    using n unfolding normal_def by blast+
  have "\<forall>c \<in> set x. \<not> is_upper c"
  proof
    fix c assume "c \<in> set x"
    then have "allowed c \<or> c = CHR '' ''" using ch by blast
    then show "\<not> is_upper c" using allowed_not_upper space_not_upper by blast
  qed
  then have l: "lower x = x" by (rule lower_fix)
  have s1: "re_sub NOT_ALLOWED_RE '' '' x = x" using ch by (rule sub1_fix)
  have s2: "re_sub SPACES_RE '' '' x = x" using ch ds by (rule sub2_fix)
  have s3: "strip x = x" using ends by (rule strip_fix)
  show ?thesis unfolding clean_text_def Let_def l s1 s2 s3 ..
qed

lemma strip_decomp: "\<exists>pre post. w = pre @ strip w @ post"
proof -
  let ?d = "dropWhile is_space w"
  let ?e = "dropWhile is_space (rev ?d)"
  have 1: "w = takeWhile is_space w @ ?d" by simp
  have 2: "rev ?e @ rev (takeWhile is_space (rev ?d)) = ?d"
    by (metis rev_append rev_rev_ident takeWhile_dropWhile_id)
  have 3: "strip w = rev ?e" by (simp add: strip_def)
  have "w = takeWhile is_space w @ strip w @ rev (takeWhile is_space (rev ?d))"
    unfolding 3 2 by simp
  then show ?thesis by blast
qed

lemma is_sub_strip: "is_sub p (strip w) \<Longrightarrow> is_sub p w"
proof -
  assume "is_sub p (strip w)"
  then obtain a b where ab: "strip w = a @ p @ b" using is_sub_iff by blast
  obtain pre post where "w = pre @ strip w @ post" using strip_decomp by blast
  then have "w = (pre @ a) @ p @ (b @ post)" using ab by simp
  then show ?thesis using is_sub_iff by blast
qed

lemma set_strip: "set (strip w) \<subseteq> set w"
proof -
  have "set (strip w) = set (dropWhile is_space (rev (dropWhile is_space w)))"
    by (simp add: strip_def)
  also have "\<dots> \<subseteq> set (rev (dropWhile is_space w))" by (auto dest: set_dropWhileD)
  also have "\<dots> \<subseteq> set w" by (auto dest: set_dropWhileD)
  finally show ?thesis .
qed

lemma strip_ends:
  "strip w \<noteq> [] \<longrightarrow> \<not> is_space (hd (strip w)) \<and> \<not> is_space (last (strip w))"
proof
  let ?d = "dropWhile is_space w"
  let ?e = "dropWhile is_space (rev ?d)"
  assume ne: "strip w \<noteq> []"
  then have e: "?e \<noteq> []" by (simp add: strip_def)
  have d: "?d \<noteq> []" using e by (metis dropWhile.simps(1) rev.simps(1))
  have "\<not> is_space (hd ?e)" using e by (rule hd_dropWhile)
  moreover have "last (strip w) = hd ?e" using e by (simp add: strip_def last_rev)
  ultimately have l: "\<not> is_space (last (strip w))" by simp
  have "rev ?d = takeWhile is_space (rev ?d) @ ?e" by simp
  then have "last (rev ?d) = last ?e" using e by (metis last_appendR)
  then have "last ?e = hd ?d" using d by (simp add: last_rev)
  moreover have "hd (strip w) = last ?e" using e by (simp add: strip_def hd_rev)
  moreover have "\<not> is_space (hd ?d)" using d by (rule hd_dropWhile)
  ultimately have "\<not> is_space (hd (strip w))" by simp
  then show "\<not> is_space (hd (strip w)) \<and> \<not> is_space (last (strip w))" using l by simp
qed

lemma re_sub_Atom_chars:
  "c \<in> set (re_sub (Atom p) repl u) \<Longrightarrow> c \<in> set repl \<or> (c \<in> set u \<and> \<not> p c)"
proof (induction u)
  case Nil
  then show ?case by (simp add: re_sub_Nil)
next
  case (Cons a u)
  show ?case
  proof (cases "p a")
    case True
    then have "re_sub (Atom p) repl (a # u) = repl @ re_sub (Atom p) repl u"
      by (simp add: re_sub_Atom)
    then show ?thesis using Cons by auto
  next
    case False
    then have "re_sub (Atom p) repl (a # u) = a # re_sub (Atom p) repl u"
      by (simp add: re_sub_Atom)
    then show ?thesis using Cons False by auto
  qed
qed

lemma sub1_chars:
  "\<forall>c \<in> set (re_sub NOT_ALLOWED_RE '' '' u). allowed c \<or> is_space c"
proof
  fix c assume "c \<in> set (re_sub NOT_ALLOWED_RE '' '' u)"
  then have "c \<in> set '' '' \<or>
      (c \<in> set u \<and> \<not> \<not> (is_lower c \<or> is_digit c \<or> c \<in> set ''+#.-()'' \<or> is_space c))"
    unfolding NOT_ALLOWED_RE_def by (rule re_sub_Atom_chars)
  then show "allowed c \<or> is_space c"
    using space_is_space unfolding allowed_def by auto
qed

lemma squeeze_props:
  "\<forall>c \<in> set v. allowed c \<or> is_space c \<Longrightarrow>
     (\<forall>c \<in> set (re_sub (Plus (Atom is_space)) '' '' v). allowed c \<or> c = CHR '' '')
     \<and> \<not> is_sub ''  '' (re_sub (Plus (Atom is_space)) '' '' v)
     \<and> (v \<noteq> [] \<longrightarrow> \<not> is_space (hd v) \<longrightarrow>
          re_sub (Plus (Atom is_space)) '' '' v \<noteq> [] \<and> hd (re_sub (Plus (Atom is_space)) '' '' v) = hd v)"
proof (induction v rule: length_induct)
  case (1 v)
  let ?sq = "re_sub (Plus (Atom is_space)) '' ''"
  show ?case
  proof (cases v)
    case Nil
    then show ?thesis by (simp add: re_sub_Nil)
  next
    case (Cons c cs)
    show ?thesis
    proof (cases "is_space c")
      case True
      let ?d = "dropWhile is_space cs"
      have sq: "?sq v = CHR '' '' # ?sq ?d" using True Cons by (simp add: re_sub_Plus_Atom)
      have len: "length ?d < length v" using Cons length_dropWhile_le' [of is_space cs] by simp
      have chars: "\<forall>c \<in> set ?d. allowed c \<or> is_space c"
        using "1.prems" Cons by (auto dest: set_dropWhileD)
      have ih: "(\<forall>c \<in> set (?sq ?d). allowed c \<or> c = CHR '' '')
         \<and> \<not> is_sub ''  '' (?sq ?d)
         \<and> (?d \<noteq> [] \<longrightarrow> \<not> is_space (hd ?d) \<longrightarrow> ?sq ?d \<noteq> [] \<and> hd (?sq ?d) = hd ?d)"
        using "1.IH" len chars by blast
      have nostart: "\<not> starts_with ''  '' (CHR '' '' # ?sq ?d)"
      proof (cases "?d = []")
        case True
        have "?sq ?d = []" unfolding True by (rule re_sub_Nil)
        then show ?thesis by simp
      next
        case False
        then have ns: "\<not> is_space (hd ?d)" by (rule hd_dropWhile)
        then have "?sq ?d \<noteq> []" and "hd (?sq ?d) = hd ?d" using ih False by blast+
        then obtain y ys where "?sq ?d = y # ys" and "y = hd ?d" by (cases "?sq ?d") auto
        moreover have "hd ?d \<noteq> CHR '' ''" using ns space_is_space by auto
        ultimately show ?thesis by simp
      qed
      have "\<not> is_sub ''  '' (?sq v)" using nostart ih sq by simp
      moreover have "\<forall>c \<in> set (?sq v). allowed c \<or> c = CHR '' ''" using ih sq by simp
      moreover have "v \<noteq> [] \<longrightarrow> \<not> is_space (hd v) \<longrightarrow> ?sq v \<noteq> [] \<and> hd (?sq v) = hd v"
        using True Cons by simp
      ultimately show ?thesis by blast
    next
      case False
      have sq: "?sq v = c # ?sq cs" using False Cons by (simp add: re_sub_Plus_Atom)
      have "length cs < length v" using Cons by simp
      moreover have "\<forall>c \<in> set cs. allowed c \<or> is_space c" using "1.prems" Cons by simp
      ultimately have ih: "(\<forall>c \<in> set (?sq cs). allowed c \<or> c = CHR '' '') \<and> \<not> is_sub ''  '' (?sq cs)"
        using "1.IH" by blast
      have c: "allowed c" using "1.prems" Cons False by simp
      have "c \<noteq> CHR '' ''" using False space_is_space by auto
      then have "\<not> is_sub ''  '' (?sq v)" using ih sq by simp
      moreover have "\<forall>c \<in> set (?sq v). allowed c \<or> c = CHR '' ''" using ih sq c by simp
      moreover have "v \<noteq> [] \<longrightarrow> \<not> is_space (hd v) \<longrightarrow> ?sq v \<noteq> [] \<and> hd (?sq v) = hd v"
        using sq Cons by simp
      ultimately show ?thesis by blast
    qed
  qed
qed

lemma clean_text_normal: "normal (clean_text t)"
proof -
  let ?v = "re_sub NOT_ALLOWED_RE '' '' (lower t)"
  let ?w = "re_sub SPACES_RE '' '' ?v"
  have x: "clean_text t = strip ?w" by (simp add: clean_text_def)
  have w: "(\<forall>c \<in> set ?w. allowed c \<or> c = CHR '' '') \<and> \<not> is_sub ''  '' ?w"
    using squeeze_props [OF sub1_chars [of "lower t"]] unfolding SPACES_RE_def by blast
  have "\<forall>c \<in> set (strip ?w). allowed c \<or> c = CHR '' ''" using w set_strip [of ?w] by blast
  moreover have "\<not> is_sub ''  '' (strip ?w)" using w is_sub_strip by blast
  ultimately show ?thesis unfolding normal_def x using strip_ends [of ?w] by blast
qed

text \<open>
  C7. For every string \<open>s\<close>, \<open>clean_text (clean_text s) = clean_text s\<close>. The normalizer is
  a total function: lower-casing, the two substitutions and the strip have no failing
  case.
\<close>

theorem clean_text_idempotent: "clean_text (clean_text s) = clean_text s"
  using clean_text_normal by (rule clean_text_fix)

section \<open>What the patterns match\<close>

declare rests.simps [simp del]

lemma rests_Atom_iff: "t \<in> set (rests (Atom p) s) \<longleftrightarrow> (\<exists>c. s = c # t \<and> p c)"
  by (cases s) (auto simp: rests.simps(1))

lemma rests_Seq_iff:
  "t \<in> set (rests (Seq a b) s) \<longleftrightarrow>
     (\<exists>t' \<in> set (rests a s). length t' \<le> length s \<and> t \<in> set (rests b t'))"
  unfolding rests.simps(3) by (auto split: if_splits)

lemma rests_Alt_iff:
  "t \<in> set (rests (Alt a b) s) \<longleftrightarrow> t \<in> set (rests a s) \<or> t \<in> set (rests b s)"
  unfolding rests.simps(4) by auto

lemma rests_Star_iff:
  "t \<in> set (rests (Star a) s) \<longleftrightarrow>
     t = s \<or> (\<exists>t' \<in> set (rests a s). length t' < length s \<and> t \<in> set (rests (Star a) t'))"
proof -
  have "set (rests (Star a) s) =
      set (concat (map (\<lambda>t. if length t < length s then rests (Star a) t else []) (rests a s))) \<union> {s}"
    by (subst rests.simps(5)) simp
  then show ?thesis by (auto split: if_splits)
qed

lemma lang_Star_Nil: "[] \<in> lang (Star a)"
  by (simp, rule exI [of _ "[]"], simp)

lemma lang_Star_Cons: "u \<in> lang a \<Longrightarrow> v \<in> lang (Star a) \<Longrightarrow> u @ v \<in> lang (Star a)"
proof -
  assume u: "u \<in> lang a" and "v \<in> lang (Star a)"
  then obtain ws where ws: "v = concat ws" "set ws \<subseteq> lang a" by auto
  have "u @ v = concat (u # ws)" using ws by simp
  moreover have "set (u # ws) \<subseteq> lang a" using u ws by simp
  ultimately have "u @ v \<in> {concat ws | ws. set ws \<subseteq> lang a}" by blast
  then show ?thesis by simp
qed

lemma rests_sound: "t \<in> set (rests r s) \<Longrightarrow> \<exists>w \<in> lang r. s = w @ t"
proof (induction r s arbitrary: t rule: rests.induct)
  case (1 p s)
  then show ?case by (auto simp: rests_Atom_iff)
next
  case (2 s)
  then show ?case by (simp add: rests.simps(2))
next
  case (3 a b s)
  from "3.prems" obtain t' where t': "t' \<in> set (rests a s)" and le: "length t' \<le> length s"
    and t: "t \<in> set (rests b t')"
    unfolding rests_Seq_iff by blast
  obtain u where u: "u \<in> lang a" "s = u @ t'" using "3.IH"(1) t' by blast
  obtain v where v: "v \<in> lang b" "t' = v @ t" using "3.IH"(2) t' le t by blast
  have "u @ v \<in> lang (Seq a b)" using u v by auto
  moreover have "s = (u @ v) @ t" using u v by simp
  ultimately show ?case by blast
next
  case (4 a b s)
  then show ?case unfolding rests_Alt_iff by auto
next
  case (5 a s)
  from "5.prems" consider "t = s"
    | t' where "t' \<in> set (rests a s)" "length t' < length s" "t \<in> set (rests (Star a) t')"
    using rests_Star_iff [of t a s] by blast
  then show ?case
  proof cases
    case 1
    then show ?thesis using lang_Star_Nil [of a] by auto
  next
    case 2
    obtain u where u: "u \<in> lang a" "s = u @ t'" using "5.IH"(1) 2 by blast
    obtain v where v: "v \<in> lang (Star a)" "t' = v @ t" using "5.IH"(2) 2 by blast
    have "u @ v \<in> lang (Star a)" using u v by (simp only: lang_Star_Cons)
    moreover have "s = (u @ v) @ t" using u v by simp
    ultimately show ?thesis by blast
  qed
qed


lemma rests_suffix: "t \<in> set (rests r s) \<Longrightarrow> length t \<le> length s"
  using rests_sound by fastforce























end
